theory Spec2Isabelle
  imports Complex_Main "HOL-Library.Multiset"
begin

section \<open>Data model of scripts/main.js\<close>

text \<open>
  A catalog entry of \<open>SOUNDS_ORDERED\<close> is an object \<open>{ g, fam }\<close>: the written
  grapheme and its phoneme family. A card (\<open>makeCard\<close>) carries the same two fields
  plus the Leitner box, the question index at which it is due and its statistics.
  JavaScript numbers are modelled as \<open>int\<close> where the program only counts, as
  \<open>nat\<close> where a number is an array index or a raw random draw, and as \<open>rat\<close> for
  the timer and the score multiplier.
\<close>

record sound =
  g :: string
  fam :: string

record card = sound +
  box :: int
  dueAt :: int
  stats_asked :: int
  stats_correct :: int

text \<open>
  The last grapheme of the catalog starts with the ligature U+0153, written here as its
  two UTF-8 bytes; graphemes are only ever compared for equality.
\<close>

definition SOUNDS_ORDERED :: "sound list" where
  "SOUNDS_ORDERED =
    [ \<lparr>g = ''ch'', fam = ''ch''\<rparr>,
      \<lparr>g = ''ou'', fam = ''ou''\<rparr>,
      \<lparr>g = ''on'', fam = ''on''\<rparr>,
      \<lparr>g = ''fr'', fam = ''fr''\<rparr>,
      \<lparr>g = ''cl'', fam = ''cl''\<rparr>,
      \<lparr>g = ''in'', fam = ''in''\<rparr>,
      \<lparr>g = ''oi'', fam = ''oi''\<rparr>,
      \<lparr>g = ''ai'', fam = ''ai''\<rparr>,
      \<lparr>g = ''ei'', fam = ''ai''\<rparr>,
      \<lparr>g = ''an'', fam = ''an''\<rparr>,
      \<lparr>g = ''en'', fam = ''an''\<rparr>,
      \<lparr>g = ''ph'', fam = ''ph''\<rparr>,
      \<lparr>g = ''au'', fam = ''au''\<rparr>,
      \<lparr>g = ''eu'', fam = ''eu''\<rparr>,
      \<lparr>g = ''gn'', fam = ''gn''\<rparr>,
      \<lparr>g = ''er'', fam = ''et''\<rparr>,
      \<lparr>g = ''un'', fam = ''un''\<rparr>,
      \<lparr>g = ''ill'', fam = ''ill''\<rparr>,
      \<lparr>g = ''ien'', fam = ''ien''\<rparr>,
      \<lparr>g = ''ain'', fam = ''in''\<rparr>,
      \<lparr>g = ''et'', fam = ''et''\<rparr>,
      \<lparr>g = ''ein'', fam = ''in''\<rparr>,
      \<lparr>g = ''am'', fam = ''an''\<rparr>,
      \<lparr>g = ''em'', fam = ''an''\<rparr>,
      \<lparr>g = ''ez'', fam = ''et''\<rparr>,
      \<lparr>g = ''um'', fam = ''un''\<rparr>,
      \<lparr>g = ''eau'', fam = ''au''\<rparr>,
      \<lparr>g = CHR 0xC5 # CHR 0x93 # ''u'', fam = ''eu''\<rparr> ]"

text \<open>
  \<open>BOX_INTERVALS[card.box] || [3,6]\<close>: the table has the keys 1 to 5, every other
  box value reads \<open>undefined\<close> and takes the fallback pair.
\<close>

definition BOX_INTERVALS :: "int \<Rightarrow> (nat \<times> nat) option" where
  "BOX_INTERVALS b =
    (if b = 1 then Some (1, 2)
     else if b = 2 then Some (3, 5)
     else if b = 3 then Some (7, 12)
     else if b = 4 then Some (15, 24)
     else if b = 5 then Some (28, 40)
     else None)"

text \<open>
  The game state. \<open>state.current\<close> is a reference to one of the card objects of
  \<open>state.deck\<close>, so that \<open>state.current.box = 1\<close> changes the deck: it is modelled
  as the position of that card in the deck (\<open>None\<close> for \<open>null\<close>). The fields that
  only drive the page (\<open>muted\<close>, \<open>showingSoundOnScreen\<close>, \<open>timerTick\<close>) are left out.
\<close>

record state =
  activeCount :: nat
  correctSinceUnlock :: int
  deck :: "card list"
  questionIndex :: int
  current :: "nat option"
  lastTargetG :: "string option"
  timerTotal :: rat
  timerLeft :: rat
  score :: int
  asked :: int
  right :: int
  streak :: int
  castleStage :: int

text \<open>The state literal the script starts with.\<close>

definition state0 :: state where
  "state0 = \<lparr> activeCount = 4, correctSinceUnlock = 0, deck = [], questionIndex = 0,
              current = None, lastTargetG = None, timerTotal = 10 * 1000, timerLeft = 0,
              score = 0, asked = 0, right = 0, streak = 0, castleStage = 0 \<rparr>"

section \<open>Card store\<close>

definition makeCard :: "sound \<Rightarrow> card" where
  "makeCard s = \<lparr> g = g s, fam = fam s, box = 1, dueAt = 0, stats_asked = 0, stats_correct = 0 \<rparr>"

text \<open>\<open>SOUNDS_ORDERED.slice(0, state.activeCount).map(makeCard)\<close> and the counter resets.\<close>

definition initDeck :: "state \<Rightarrow> state" where
  "initDeck s = s\<lparr> deck := map makeCard (take (activeCount s) SOUNDS_ORDERED),
                   correctSinceUnlock := 0, questionIndex := 0, current := None,
                   lastTargetG := None, score := 0, asked := 0, right := 0, streak := 0,
                   castleStage := 0 \<rparr>"

text \<open>
  \<open>unlockNext\<close> returns \<open>false\<close> at once when the catalog is exhausted; otherwise it
  pushes the next catalog entry as a fresh card, counts it and resets the counter.
\<close>

definition unlockNext :: "state \<Rightarrow> bool \<times> state" where
  "unlockNext s =
    (if activeCount s \<ge> length SOUNDS_ORDERED then (False, s)
     else (True, s\<lparr> deck := deck s @ [makeCard (SOUNDS_ORDERED ! activeCount s)],
                     activeCount := activeCount s + 1,
                     correctSinceUnlock := 0 \<rparr>))"

section \<open>Scheduler\<close>

text \<open>
  \<open>rnd(a,b) = Math.floor(Math.random()*(b-a+1))+a\<close>. The draw of \<open>Math.random\<close> is
  an input of the model: a natural number \<open>r\<close>, of which the position in the range
  \<open>r mod (b-a+1)\<close> is used, so that every value of the range and no other can come out.
\<close>

definition rnd :: "nat \<Rightarrow> nat \<Rightarrow> nat \<Rightarrow> nat" where
  "rnd a b r = r mod (b - a + 1) + a"

definition schedule_offset :: "card \<Rightarrow> nat \<Rightarrow> nat" where
  "schedule_offset c r =
    (case (case BOX_INTERVALS (box c) of Some p \<Rightarrow> p | None \<Rightarrow> (3, 6)) of
       (minQ, maxQ) \<Rightarrow> rnd minQ maxQ r)"

text \<open>\<open>schedule(card)\<close> at question index \<open>qi\<close> with the random draw \<open>r\<close>.\<close>

definition schedule :: "int \<Rightarrow> nat \<Rightarrow> card \<Rightarrow> card" where
  "schedule qi r c = c\<lparr> dueAt := qi + int (schedule_offset c r) \<rparr>"

section \<open>Selector\<close>

text \<open>
  The two comparators handed to \<open>Array.prototype.sort\<close>:
  \<open>(a,b) => a.box - b.box || a.dueAt - b.dueAt\<close> and
  \<open>(a,b) => (a.dueAt - b.dueAt) || (a.box - b.box)\<close>; \<open>x || y\<close> is \<open>x\<close> unless
  \<open>x\<close> is zero.
\<close>

definition cmp_due :: "card \<Rightarrow> card \<Rightarrow> int" where
  "cmp_due a b = (if box a - box b \<noteq> 0 then box a - box b else dueAt a - dueAt b)"

definition cmp_soonest :: "card \<Rightarrow> card \<Rightarrow> int" where
  "cmp_soonest a b = (if dueAt a - dueAt b \<noteq> 0 then dueAt a - dueAt b else box a - box b)"

text \<open>
  \<open>sort\<close> is stable and puts \<open>a\<close> before \<open>b\<close> when the comparator is negative:
  an insertion sort that places each element in front of the first one it does not
  exceed.
\<close>

fun insort_cmp :: "('a \<Rightarrow> 'a \<Rightarrow> int) \<Rightarrow> 'a \<Rightarrow> 'a list \<Rightarrow> 'a list" where
  "insort_cmp cmp x [] = [x]"
| "insort_cmp cmp x (y # ys) = (if cmp x y \<le> 0 then x # y # ys else y # insort_cmp cmp x ys)"

definition sort_cmp :: "('a \<Rightarrow> 'a \<Rightarrow> int) \<Rightarrow> 'a list \<Rightarrow> 'a list" where
  "sort_cmp cmp xs = foldr (insort_cmp cmp) xs []"

text \<open>\<open>choices[0] || fallback[0]\<close>: a card object is truthy, a missing element is \<open>undefined\<close>.\<close>

definition first_or :: "'a list \<Rightarrow> 'a list \<Rightarrow> 'a option" where
  "first_or choices fallback =
    (case choices of x # _ \<Rightarrow> Some x
     | [] \<Rightarrow> (case fallback of y # _ \<Rightarrow> Some y | [] \<Rightarrow> None))"

text \<open>
  \<open>pickNextCard\<close> returns one of the card objects of the deck, here its position in
  \<open>state.deck\<close>; \<open>None\<close> is \<open>undefined\<close>. The arrays \<open>due\<close> and \<open>soonest\<close> hold
  references to the cards, here their positions, in deck order before sorting.
\<close>

definition pickNextCard :: "state \<Rightarrow> nat option" where
  "pickNextCard s =
    (let cardAt = (\<lambda>i. deck s ! i);
         due = filter (\<lambda>i. dueAt (cardAt i) \<le> questionIndex s) [0..<length (deck s)]
     in if due \<noteq> [] then
          (let due' = sort_cmp (\<lambda>a b. cmp_due (cardAt a) (cardAt b)) due;
               choices = filter (\<lambda>i. Some (g (cardAt i)) \<noteq> lastTargetG s) due'
           in first_or choices due')
        else
          (let soonest = sort_cmp (\<lambda>a b. cmp_soonest (cardAt a) (cardAt b)) [0..<length (deck s)];
               choices = filter (\<lambda>i. Some (g (cardAt i)) \<noteq> lastTargetG s) soonest
           in first_or choices soonest))"

section \<open>Distractor builder\<close>

text \<open>
  The pool of \<open>buildOptions\<close> mixes card objects and catalog entries; only their
  \<open>g\<close> and \<open>fam\<close> are read, so a card enters the pool as its catalog part.
\<close>

definition as_sound :: "card \<Rightarrow> sound" where
  "as_sound c = \<lparr> g = g c, fam = fam c \<rparr>"









section \<open>Answer evaluation\<close>

text \<open>
  \<open>Math.round\<close> rounds to the nearest integer, a tie upwards. The timer fraction and
  the streak multiplier are computed in exact rationals (\<open>0.05\<close> as \<open>1/20\<close>, \<open>0.30\<close> as
  \<open>3/10\<close>); the division \<open>timerLeft / timerTotal\<close> is meant for a positive
  \<open>timerTotal\<close>, which is what the page sets.
\<close>

definition Math_round :: "rat \<Rightarrow> int" where
  "Math_round x = \<lfloor>x + 1 / 2\<rfloor>"

text \<open>
  \<open>onAnswerClick\<close> for the clicked grapheme \<open>chosen\<close>; \<open>r\<close> is the random draw of
  \<open>schedule\<close>. \<open>None\<close> is the TypeError of reading \<open>state.current.g\<close> when no card
  is current. The writes to the page and to the speech synthesis are left out.
\<close>

definition onAnswerClick :: "string \<Rightarrow> nat \<Rightarrow> state \<Rightarrow> state option" where
  "onAnswerClick chosen r s =
    (case current s of
       None \<Rightarrow> None
     | Some i \<Rightarrow>
        if i \<ge> length (deck s) then None
        else
          (let timeFrac = max 0 (min 1 (timerLeft s / timerTotal s));
               base = 100;
               speedBonus = Math_round (100 * timeFrac);
               cur = deck s ! i;
               cur1 = cur\<lparr> stats_asked := stats_asked cur + 1 \<rparr>;
               s1 = s\<lparr> asked := asked s + 1 \<rparr>
           in if chosen = g cur then
                (let cur2 = cur1\<lparr> stats_correct := stats_correct cur1 + 1 \<rparr>;
                     s2 = s1\<lparr> right := right s1 + 1, streak := streak s1 + 1 \<rparr>;
                     cur3 = schedule (questionIndex s2) r (cur2\<lparr> box := min 5 (box cur2 + 1) \<rparr>);
                     streakMult = 1 + min (3 / 10) (of_int (streak s2) * (1 / 20));
                     gained = Math_round (of_int (base + speedBonus) * streakMult);
                     s3 = s2\<lparr> deck := (deck s2)[i := cur3], score := score s2 + gained,
                              correctSinceUnlock := correctSinceUnlock s2 + 1 \<rparr>;
                     s4 = (if correctSinceUnlock s3 \<ge> 5 then snd (unlockNext s3) else s3)
                 in Some (s4\<lparr> castleStage := min 8 (castleStage s4 + 1) \<rparr>))
              else
                (let cur2 = schedule (questionIndex s1) r (cur1\<lparr> box := 1 \<rparr>)
                 in Some (s1\<lparr> streak := 0, deck := (deck s1)[i := cur2],
                              score := max 0 (score s1 - 20),
                              castleStage := max 0 (castleStage s1 - 1) \<rparr>))))"

text \<open>\<open>timesUp\<close>, called by the timer when no answer came in time.\<close>

definition timesUp :: "nat \<Rightarrow> state \<Rightarrow> state option" where
  "timesUp r s =
    (case current s of
       None \<Rightarrow> None
     | Some i \<Rightarrow>
        if i \<ge> length (deck s) then None
        else
          (let cur = deck s ! i;
               cur' = schedule (questionIndex s) r (cur\<lparr> box := 1 \<rparr>)
           in Some (s\<lparr> deck := (deck s)[i := cur'], streak := 0, asked := asked s + 1 \<rparr>)))"

text \<open>
  \<open>nextQuestion\<close>: the question index advances, the next card becomes current, and
  \<open>renderQuestion\<close> restarts the timer. Reading \<open>card.g\<close> of \<open>undefined\<close> (an empty
  deck) is a TypeError.
\<close>

definition nextQuestion :: "state \<Rightarrow> state option" where
  "nextQuestion s =
    (let s1 = s\<lparr> questionIndex := questionIndex s + 1 \<rparr>
     in case pickNextCard s1 of
          None \<Rightarrow> None
        | Some i \<Rightarrow> Some (s1\<lparr> current := Some i, lastTargetG := Some (g (deck s1 ! i)),
                              timerLeft := timerTotal s1 \<rparr>))"

text \<open>
  What happens between two questions: a click on an option while the timer shows
  \<open>left\<close>, the timer running out, or the next question being drawn.
\<close>

datatype event = Click string rat nat | TimeOut nat | Next

fun step :: "event \<Rightarrow> state \<Rightarrow> state option" where
  "step (Click chosen left r) s = onAnswerClick chosen r (s\<lparr> timerLeft := left \<rparr>)"
| "step (TimeOut r) s = timesUp r (s\<lparr> timerLeft := 0 \<rparr>)"
| "step Next s = nextQuestion s"

fun run :: "event list \<Rightarrow> state \<Rightarrow> state option" where
  "run [] s = Some s"
| "run (e # es) s = (case step e s of None \<Rightarrow> None | Some s' \<Rightarrow> run es s')"

text \<open>
  The card maker of tests/main.test.js, \<open>mk = (g, box, dueAt) => ({ g, fam: g, box, dueAt })\<close>;
  the statistics, which the selector never reads, are set to zero.
\<close>

definition mk :: "string \<Rightarrow> int \<Rightarrow> int \<Rightarrow> card" where
  "mk s b d = \<lparr> g = s, fam = s, box = b, dueAt = d, stats_asked = 0, stats_correct = 0 \<rparr>"

section \<open>State invariants\<close>

text \<open>The Leitner box of a card lies between 1 and 5.\<close>

definition box_ok :: "card \<Rightarrow> bool" where
  "box_ok c \<longleftrightarrow> 1 \<le> box c \<and> box c \<le> 5"

text \<open>
  The deck is the catalog prefix of length \<open>activeCount\<close>: what \<open>initDeck\<close> sets up
  and \<open>unlockNext\<close> extends.
\<close>

definition prefix_inv :: "state \<Rightarrow> bool" where
  "prefix_inv s \<longleftrightarrow> activeCount s \<le> length SOUNDS_ORDERED \<and>
      map as_sound (deck s) = take (activeCount s) SOUNDS_ORDERED"

section \<open>Scheduling intervals\<close>

lemma length_SOUNDS_ORDERED: "length SOUNDS_ORDERED = 28"
  by (simp add: SOUNDS_ORDERED_def)

lemma rnd_bounds: "a \<le> b \<Longrightarrow> a \<le> rnd a b r \<and> rnd a b r \<le> b"
proof -
  assume ab: "a \<le> b"
  have "r mod (b - a + 1) < b - a + 1" by simp
  then show ?thesis using ab unfolding rnd_def by linarith
qed

text \<open>
  Claim C7. For every card, question index and random draw, \<open>schedule\<close> sets
  \<open>dueAt\<close> to the question index plus an offset that lies in [1,2] for box 1, [3,5] for
  box 2, [7,12] for box 3, [15,24] for box 4, [28,40] for box 5 and in [3,6] for every
  other box value.
\<close>

theorem schedule_dueAt_in_box_interval:
  "(box c = 1 \<longrightarrow> qi + 1 \<le> dueAt (schedule qi r c) \<and> dueAt (schedule qi r c) \<le> qi + 2) \<and>
   (box c = 2 \<longrightarrow> qi + 3 \<le> dueAt (schedule qi r c) \<and> dueAt (schedule qi r c) \<le> qi + 5) \<and>
   (box c = 3 \<longrightarrow> qi + 7 \<le> dueAt (schedule qi r c) \<and> dueAt (schedule qi r c) \<le> qi + 12) \<and>
   (box c = 4 \<longrightarrow> qi + 15 \<le> dueAt (schedule qi r c) \<and> dueAt (schedule qi r c) \<le> qi + 24) \<and>
   (box c = 5 \<longrightarrow> qi + 28 \<le> dueAt (schedule qi r c) \<and> dueAt (schedule qi r c) \<le> qi + 40) \<and>
   (box c \<notin> {1, 2, 3, 4, 5} \<longrightarrow> qi + 3 \<le> dueAt (schedule qi r c) \<and> dueAt (schedule qi r c) \<le> qi + 6)"
  using rnd_bounds[of 1 2 r] rnd_bounds[of 3 5 r] rnd_bounds[of 7 12 r]
        rnd_bounds[of 15 24 r] rnd_bounds[of 28 40 r] rnd_bounds[of 3 6 r]
  by (simp add: schedule_def schedule_offset_def BOX_INTERVALS_def)

text \<open>
  The theorem at the two cards of the repository's tests, \<open>{ box: 2 }\<close> and
  \<open>{ box: 9 }\<close> at question index 10, with the draw 7.
\<close>

theorem schedule_dueAt_in_box_interval_witness:
  "box (mk ''b'' 2 0) = 2 \<and> 13 \<le> dueAt (schedule 10 7 (mk ''b'' 2 0))
     \<and> dueAt (schedule 10 7 (mk ''b'' 2 0)) \<le> 15 \<and>
   box (mk ''n'' 9 0) \<notin> {1, 2, 3, 4, 5} \<and> 13 \<le> dueAt (schedule 10 7 (mk ''n'' 9 0))
     \<and> dueAt (schedule 10 7 (mk ''n'' 9 0)) \<le> 16"
  using schedule_dueAt_in_box_interval [of "mk ''b'' 2 0" 10 7]
        schedule_dueAt_in_box_interval [of "mk ''n'' 9 0" 10 7]
  by (simp add: mk_def)

section \<open>Scoring\<close>





section \<open>Timeout\<close>

text \<open>
  Claim C3 says that a timeout does what a wrong answer does. \<open>timesUp\<close> resets the
  streak and the box, reschedules and counts the question in \<open>state.asked\<close>, but it
  neither takes the 20 points nor counts the question in the card's \<open>stats.asked\<close>.
  In a fresh game, after a right first answer (score 210) the second question asks
  \<open>ou\<close>: a timeout leaves the score at 210 and the card's \<open>stats.asked\<close> at 0, where
  a wrong click gives 190 and 1.
\<close>

theorem timesUp_keeps_score_and_stats:
  "map_option (\<lambda>s. (score s, stats_asked (deck s ! 1), current s))
       (run [Next, Click ''ch'' 10000 0, Next] (initDeck state0)) = Some (210, 0, Some 1) \<and>
   map_option (\<lambda>s. (score s, stats_asked (deck s ! 1), asked s, streak s, box (deck s ! 1)))
       (run [Next, Click ''ch'' 10000 0, Next, TimeOut 0] (initDeck state0)) = Some (210, 0, 2, 0, 1) \<and>
   map_option (\<lambda>s. (score s, stats_asked (deck s ! 1), asked s, streak s, box (deck s ! 1)))
       (run [Next, Click ''ch'' 10000 0, Next, Click ''on'' 0 0] (initDeck state0)) = Some (190, 1, 2, 0, 1)"
  by code_simp

section \<open>Card store: unlocking keeps a catalog prefix\<close>

lemma as_sound_makeCard: "as_sound (makeCard x) = x"
  by (simp add: as_sound_def makeCard_def)

lemma unlockNext_deck:
  "deck (snd (unlockNext s)) =
     (if activeCount s < length SOUNDS_ORDERED
      then deck s @ [makeCard (SOUNDS_ORDERED ! activeCount s)] else deck s)"
  by (simp add: unlockNext_def)

lemma prefix_inv_initDeck:
  "activeCount s \<le> length SOUNDS_ORDERED \<Longrightarrow> prefix_inv (initDeck s)"
  by (simp add: prefix_inv_def initDeck_def o_def as_sound_makeCard)

lemma prefix_inv_unlockNext: "prefix_inv s \<Longrightarrow> prefix_inv (snd (unlockNext s))"
  by (auto simp: prefix_inv_def unlockNext_def as_sound_makeCard take_Suc_conv_app_nth)

lemma prefix_inv_unlocks:
  "prefix_inv s \<Longrightarrow> prefix_inv (((\<lambda>s. snd (unlockNext s)) ^^ n) s)"
  by (induction n) (simp_all add: prefix_inv_unlockNext)

text \<open>
  Claim C9. \<open>unlockNext\<close> changes the deck only by appending one fresh card for the next
  catalog entry (and leaves it as it is when the catalog is exhausted), so every card
  already there keeps its place; after \<open>initDeck\<close> and any number of unlocks, the
  graphemes and families of the deck are the catalog prefix of length \<open>activeCount\<close>,
  and the deck has \<open>activeCount\<close> cards. \<open>initDeck\<close> slices by the \<open>activeCount\<close>
  it finds, which the program never lets exceed the catalog length.
\<close>

theorem unlockNext_appends_catalog_prefix:
  "deck (snd (unlockNext s)) =
     (if activeCount s < length SOUNDS_ORDERED
      then deck s @ [makeCard (SOUNDS_ORDERED ! activeCount s)] else deck s) \<and>
   (activeCount s \<le> length SOUNDS_ORDERED \<longrightarrow>
     map as_sound (deck (((\<lambda>s. snd (unlockNext s)) ^^ n) (initDeck s)))
       = take (activeCount (((\<lambda>s. snd (unlockNext s)) ^^ n) (initDeck s))) SOUNDS_ORDERED \<and>
     length (deck (((\<lambda>s. snd (unlockNext s)) ^^ n) (initDeck s)))
       = activeCount (((\<lambda>s. snd (unlockNext s)) ^^ n) (initDeck s)))"
proof (intro conjI impI)
  show "deck (snd (unlockNext s)) =
     (if activeCount s < length SOUNDS_ORDERED
      then deck s @ [makeCard (SOUNDS_ORDERED ! activeCount s)] else deck s)"
    by (rule unlockNext_deck)
next
  assume a: "activeCount s \<le> length SOUNDS_ORDERED"
  let ?s' = "((\<lambda>s. snd (unlockNext s)) ^^ n) (initDeck s)"
  have inv: "prefix_inv ?s'"
    using a by (simp add: prefix_inv_unlocks prefix_inv_initDeck)
  then show m: "map as_sound (deck ?s') = take (activeCount ?s') SOUNDS_ORDERED"
    by (simp add: prefix_inv_def)
  have "length (map as_sound (deck ?s')) = activeCount ?s'"
    using inv unfolding prefix_inv_def by (simp only: length_take min_def) simp
  then show "length (deck ?s') = activeCount ?s'" by simp
qed

text \<open>The theorem at the initial state, two unlocks after \<open>initDeck\<close>: six cards.\<close>

theorem unlockNext_appends_catalog_prefix_witness:
  "activeCount state0 \<le> length SOUNDS_ORDERED \<and>
   map as_sound (deck (((\<lambda>s. snd (unlockNext s)) ^^ 2) (initDeck state0))) = take 6 SOUNDS_ORDERED \<and>
   length (deck (((\<lambda>s. snd (unlockNext s)) ^^ 2) (initDeck state0))) = 6"
proof -
  have a: "activeCount state0 \<le> length SOUNDS_ORDERED" by code_simp
  have b: "activeCount (((\<lambda>s. snd (unlockNext s)) ^^ 2) (initDeck state0)) = 6" by code_simp
  from unlockNext_appends_catalog_prefix [of state0 2] a b show ?thesis by simp
qed

section \<open>Boxes stay in range\<close>

lemma list_all_update: "list_all P xs \<Longrightarrow> P x \<Longrightarrow> list_all P (xs[i := x])"
  using set_update_subset_insert[of xs i x] by (auto simp: list_all_iff)

lemma box_schedule [simp]: "box (schedule qi r c) = box c"
  by (simp add: schedule_def)

lemma schedule_due_ge: "qi \<le> dueAt (schedule qi r c)"
  by (simp add: schedule_def)

lemma unlockNext_boxes:
  "list_all box_ok (deck s) \<Longrightarrow> list_all box_ok (deck (snd (unlockNext s)))"
  by (simp add: unlockNext_def box_ok_def makeCard_def)

lemma onAnswerClick_boxes:
  assumes "list_all box_ok (deck s)" "onAnswerClick chosen r s = Some s'"
  shows "list_all box_ok (deck s')"
proof -
  obtain i where i: "current s = Some i" "i < length (deck s)"
    using assms(2) by (auto simp: onAnswerClick_def split: option.splits if_splits)
  have ok: "box_ok (deck s ! i)" using assms(1) i by (simp add: list_all_length)
  show ?thesis
  proof (cases "chosen = g (deck s ! i)")
    case True
    let ?c = "schedule (questionIndex s) r
               ((deck s ! i)\<lparr>stats_asked := stats_asked (deck s ! i) + 1,
                             stats_correct := stats_correct (deck s ! i) + 1,
                             box := min 5 (box (deck s ! i) + 1)\<rparr>)"
    have c: "box_ok ?c" using ok by (simp add: box_ok_def)
    have "list_all box_ok ((deck s)[i := ?c])" by (rule list_all_update[OF assms(1) c])
    then show ?thesis
      using assms(2) i True
      by (auto simp: onAnswerClick_def Let_def unlockNext_def box_ok_def makeCard_def split: if_splits)
  next
    case False
    let ?c = "schedule (questionIndex s) r
               ((deck s ! i)\<lparr>stats_asked := stats_asked (deck s ! i) + 1, box := 1\<rparr>)"
    have c: "box_ok ?c" by (simp add: box_ok_def)
    have "list_all box_ok ((deck s)[i := ?c])" by (rule list_all_update[OF assms(1) c])
    then show ?thesis
      using assms(2) i False
      by (auto simp: onAnswerClick_def Let_def)
  qed
qed

lemma timesUp_boxes:
  assumes "list_all box_ok (deck s)" "timesUp r s = Some s'"
  shows "list_all box_ok (deck s')"
proof -
  obtain i where i: "current s = Some i" "i < length (deck s)"
    using assms(2) by (auto simp: timesUp_def split: option.splits if_splits)
  let ?c = "schedule (questionIndex s) r ((deck s ! i)\<lparr>box := 1\<rparr>)"
  have c: "box_ok ?c" by (simp add: box_ok_def)
  have "list_all box_ok ((deck s)[i := ?c])" by (rule list_all_update[OF assms(1) c])
  then show ?thesis using assms(2) i by (auto simp: timesUp_def Let_def)
qed

lemma nextQuestion_deck: "nextQuestion s = Some s' \<Longrightarrow> deck s' = deck s"
  by (auto simp: nextQuestion_def Let_def split: option.splits)

lemma step_boxes:
  "list_all box_ok (deck s) \<Longrightarrow> step e s = Some s' \<Longrightarrow> list_all box_ok (deck s')"
proof (cases e)
  case (Click chosen left r)
  assume "list_all box_ok (deck s)" "step e s = Some s'"
  then show ?thesis using Click onAnswerClick_boxes[of "s\<lparr>timerLeft := left\<rparr>" chosen r s'] by simp
next
  case (TimeOut r)
  assume "list_all box_ok (deck s)" "step e s = Some s'"
  then show ?thesis using TimeOut timesUp_boxes[of "s\<lparr>timerLeft := 0\<rparr>" r s'] by simp
next
  case Next
  assume "list_all box_ok (deck s)" "step e s = Some s'"
  then show ?thesis using Next nextQuestion_deck[of s s'] by simp
qed

lemma run_boxes:
  "list_all box_ok (deck s) \<Longrightarrow> run es s = Some s' \<Longrightarrow> list_all box_ok (deck s')"
proof (induction es arbitrary: s)
  case Nil
  then show ?case by simp
next
  case (Cons e es)
  then obtain s1 where s1: "step e s = Some s1" "run es s1 = Some s'"
    by (auto split: option.splits)
  from Cons.IH[OF step_boxes[OF Cons.prems(1) s1(1)] s1(2)] show ?case .
qed

lemma initDeck_boxes: "list_all box_ok (deck (initDeck s))"
  by (simp add: initDeck_def list_all_iff box_ok_def makeCard_def)

lemma step_rescheduled_due:
  assumes "step e s = Some s'" "e \<noteq> Next" "current s = Some i"
  shows "i < length (deck s') \<and> questionIndex s' = questionIndex s
         \<and> questionIndex s \<le> dueAt (deck s' ! i)"
proof (cases e)
  case (Click chosen left r)
  then show ?thesis using assms
    by (auto simp: onAnswerClick_def Let_def unlockNext_def schedule_due_ge nth_append
             split: option.splits if_splits)
next
  case (TimeOut r)
  then show ?thesis using assms
    by (auto simp: timesUp_def Let_def schedule_due_ge split: option.splits if_splits)
next
  case Next
  then show ?thesis using assms by simp
qed

text \<open>
  Claim C8. A new card has box 1; \<open>initDeck\<close> yields cards with boxes in [1,5];
  \<open>unlockNext\<close>, a click (right or wrong), a timeout and \<open>nextQuestion\<close> keep every
  box of the deck in [1,5], hence so does every run of a game; \<open>schedule\<close> never sets
  \<open>dueAt\<close> below the question index, in particular for the card that a click or a
  timeout reschedules.
\<close>

theorem boxes_stay_in_range:
  "box (makeCard x) = 1 \<and>
   list_all box_ok (deck (initDeck s0)) \<and>
   (list_all box_ok (deck s) \<longrightarrow> list_all box_ok (deck (snd (unlockNext s)))) \<and>
   (list_all box_ok (deck s) \<and> step e s = Some s' \<longrightarrow> list_all box_ok (deck s')) \<and>
   (run es (initDeck s0) = Some s'' \<longrightarrow> list_all box_ok (deck s'')) \<and>
   qi \<le> dueAt (schedule qi r c) \<and>
   (step e s = Some s' \<and> e \<noteq> Next \<and> current s = Some i \<longrightarrow>
      i < length (deck s') \<and> questionIndex s \<le> dueAt (deck s' ! i))"
  using unlockNext_boxes[of s] step_boxes[of s e s'] run_boxes[OF initDeck_boxes, of es s0 s'']
        initDeck_boxes[of s0] schedule_due_ge[of qi r c] step_rescheduled_due[of e s s' i]
  by (simp add: makeCard_def)

text \<open>
  The theorem in a fresh game: at the first question (target at position 0) the timer
  runs out; and after a right click on the first question.
\<close>

theorem boxes_stay_in_range_witness:
  "list_all box_ok (deck (the (run [Next] (initDeck state0)))) \<and>
   step (TimeOut 0) (the (run [Next] (initDeck state0))) = Some (the (run [Next, TimeOut 0] (initDeck state0))) \<and>
   TimeOut 0 \<noteq> Next \<and> current (the (run [Next] (initDeck state0))) = Some 0 \<and>
   list_all box_ok (deck (the (run [Next, TimeOut 0] (initDeck state0)))) \<and>
   questionIndex (the (run [Next] (initDeck state0)))
     \<le> dueAt (deck (the (run [Next, TimeOut 0] (initDeck state0))) ! 0) \<and>
   run [Next, Click ''ch'' 10000 0] (initDeck state0)
     = Some (the (run [Next, Click ''ch'' 10000 0] (initDeck state0))) \<and>
   list_all box_ok (deck (the (run [Next, Click ''ch'' 10000 0] (initDeck state0))))"
proof -
  let ?s = "the (run [Next] (initDeck state0))"
  let ?s' = "the (run [Next, TimeOut 0] (initDeck state0))"
  let ?s'' = "the (run [Next, Click ''ch'' 10000 0] (initDeck state0))"
  have a: "list_all box_ok (deck ?s)" by code_simp
  have b: "step (TimeOut 0) ?s = Some ?s'" by code_simp
  have c: "current ?s = Some 0" by code_simp
  have d: "run [Next, Click ''ch'' 10000 0] (initDeck state0) = Some ?s''" by code_simp
  from boxes_stay_in_range [of _ state0 ?s "TimeOut 0" ?s' "[Next, Click ''ch'' 10000 0]" ?s'' _ _ _ 0]
       a b c d
  show ?thesis by simp
qed

section \<open>Progression\<close>

lemma onAnswerClick_correct_counter:
  assumes "current s = Some i" "i < length (deck s)" "chosen = g (deck s ! i)"
  shows "\<exists>s'. onAnswerClick chosen r s = Some s' \<and> right s' = right s + 1 \<and>
     (if correctSinceUnlock s + 1 \<ge> 5 \<and> activeCount s < length SOUNDS_ORDERED
      then correctSinceUnlock s' = 0 \<and> activeCount s' = activeCount s + 1
           \<and> length (deck s') = length (deck s) + 1
      else correctSinceUnlock s' = correctSinceUnlock s + 1 \<and> activeCount s' = activeCount s
           \<and> length (deck s') = length (deck s))"
  using assms by (simp add: onAnswerClick_def Let_def unlockNext_def)

lemma onAnswerClick_wrong_counter:
  assumes "current s = Some i" "i < length (deck s)" "chosen \<noteq> g (deck s ! i)"
  shows "\<exists>s'. onAnswerClick chosen r s = Some s' \<and> right s' = right s \<and>
     correctSinceUnlock s' = correctSinceUnlock s \<and> activeCount s' = activeCount s
           \<and> length (deck s') = length (deck s)"
  using assms by (simp add: onAnswerClick_def Let_def)

lemma onAnswerClick_Some:
  "onAnswerClick chosen r s = Some s' \<Longrightarrow> \<exists>i. current s = Some i \<and> i < length (deck s)"
  by (auto simp: onAnswerClick_def split: option.splits if_splits)

text \<open>One event either leaves the three counters alone or is a correct answer.\<close>

lemma step_counter:
  assumes "step e s = Some s'"
  shows "(right s' = right s \<and> correctSinceUnlock s' = correctSinceUnlock s
            \<and> activeCount s' = activeCount s \<and> length (deck s') = length (deck s)) \<or>
         (right s' = right s + 1 \<and>
           (if correctSinceUnlock s + 1 \<ge> 5 \<and> activeCount s < length SOUNDS_ORDERED
            then correctSinceUnlock s' = 0 \<and> activeCount s' = activeCount s + 1
                 \<and> length (deck s') = length (deck s) + 1
            else correctSinceUnlock s' = correctSinceUnlock s + 1 \<and> activeCount s' = activeCount s
                 \<and> length (deck s') = length (deck s)))"
proof (cases e)
  case (Click chosen left r)
  let ?s = "s\<lparr>timerLeft := left\<rparr>"
  from assms Click have oc: "onAnswerClick chosen r ?s = Some s'" by simp
  then obtain i where i: "current ?s = Some i" "i < length (deck ?s)"
    using onAnswerClick_Some by blast
  show ?thesis
  proof (cases "chosen = g (deck ?s ! i)")
    case True
    from onAnswerClick_correct_counter[OF i True, of r] oc show ?thesis by simp
  next
    case False
    from onAnswerClick_wrong_counter[OF i False, of r] oc show ?thesis by simp
  qed
next
  case (TimeOut r)
  then show ?thesis using assms
    by (auto simp: timesUp_def Let_def split: option.splits if_splits)
next
  case Next
  then show ?thesis using assms
    by (auto simp: nextQuestion_def Let_def split: option.splits)
qed

lemma run_right_mono: "run es s = Some s' \<Longrightarrow> right s \<le> right s'"
proof (induction es arbitrary: s)
  case Nil
  then show ?case by simp
next
  case (Cons e es)
  then obtain s1 where s1: "step e s = Some s1" "run es s1 = Some s'"
    by (auto split: option.splits)
  have "right s \<le> right s1" using step_counter[OF s1(1)] by auto
  with Cons.IH[OF s1(2)] show ?case by simp
qed

lemma run_counter:
  "run es s = Some s' \<Longrightarrow> 0 \<le> correctSinceUnlock s \<Longrightarrow> correctSinceUnlock s < 5 \<Longrightarrow>
   (correctSinceUnlock s + (right s' - right s) < 5 \<longrightarrow>
      correctSinceUnlock s' = correctSinceUnlock s + (right s' - right s)
      \<and> activeCount s' = activeCount s \<and> length (deck s') = length (deck s)) \<and>
   (correctSinceUnlock s + (right s' - right s) = 5 \<and> activeCount s < length SOUNDS_ORDERED \<longrightarrow>
      correctSinceUnlock s' = 0 \<and> activeCount s' = activeCount s + 1
      \<and> length (deck s') = length (deck s) + 1)"
proof (induction es arbitrary: s)
  case Nil
  then show ?case by simp
next
  case (Cons e es)
  then obtain s1 where s1: "step e s = Some s1" "run es s1 = Some s'"
    by (auto split: option.splits)
  have mono: "right s1 \<le> right s'" by (rule run_right_mono[OF s1(2)])
  from step_counter[OF s1(1)] show ?case
  proof
    assume a: "right s1 = right s \<and> correctSinceUnlock s1 = correctSinceUnlock s
            \<and> activeCount s1 = activeCount s \<and> length (deck s1) = length (deck s)"
    then have "0 \<le> correctSinceUnlock s1" "correctSinceUnlock s1 < 5"
      using Cons.prems by simp_all
    from Cons.IH[OF s1(2) this] a show ?thesis by simp
  next
    assume a: "right s1 = right s + 1 \<and>
           (if correctSinceUnlock s + 1 \<ge> 5 \<and> activeCount s < length SOUNDS_ORDERED
            then correctSinceUnlock s1 = 0 \<and> activeCount s1 = activeCount s + 1
                 \<and> length (deck s1) = length (deck s) + 1
            else correctSinceUnlock s1 = correctSinceUnlock s + 1 \<and> activeCount s1 = activeCount s
                 \<and> length (deck s1) = length (deck s))"
    show ?thesis
    proof (cases "correctSinceUnlock s + 1 \<ge> 5")
      case False
      with a have b: "right s1 = right s + 1" "correctSinceUnlock s1 = correctSinceUnlock s + 1"
        "activeCount s1 = activeCount s" "length (deck s1) = length (deck s)" by simp_all
      have "0 \<le> correctSinceUnlock s1" "correctSinceUnlock s1 < 5"
        using b False Cons.prems by simp_all
      from Cons.IH[OF s1(2) this] b show ?thesis by simp
    next
      case True
      then have c4: "correctSinceUnlock s = 4" using Cons.prems by simp
      show ?thesis
      proof (cases "activeCount s < length SOUNDS_ORDERED")
        case True
        with a c4 have b: "right s1 = right s + 1" "correctSinceUnlock s1 = 0"
          "activeCount s1 = activeCount s + 1" "length (deck s1) = length (deck s) + 1" by simp_all
        have "0 \<le> correctSinceUnlock s1" "correctSinceUnlock s1 < 5" using b by simp_all
        from Cons.IH[OF s1(2) this] b c4 mono show ?thesis by auto
      next
        case False
        with a have "right s1 = right s + 1" by simp
        with mono c4 False show ?thesis by simp
      qed
    qed
  qed
qed

text \<open>
  Claim C2, as the code has it. A correct answer increments \<open>correctSinceUnlock\<close>;
  when the counter has reached 5, \<open>unlockNext\<close> is called, and the counter goes back
  to 0 only if that call unlocked a card: with the catalog exhausted \<open>unlockNext\<close>
  returns before its reset and the counter keeps its incremented value. Over any
  sequence of clicks, timeouts and new questions that starts with the counter at 0 and
  the catalog not exhausted and contains exactly five correct answers, \<open>activeCount\<close>
  and the deck grow by exactly one and the counter ends at 0.
\<close>

theorem five_correct_answers_unlock_one:
  "(current s = Some i \<and> i < length (deck s) \<longrightarrow>
      (\<exists>s'. onAnswerClick (g (deck s ! i)) r s = Some s' \<and>
         (if correctSinceUnlock s + 1 \<ge> 5 \<and> activeCount s < length SOUNDS_ORDERED
          then correctSinceUnlock s' = 0 \<and> activeCount s' = activeCount s + 1
               \<and> length (deck s') = length (deck s) + 1
          else correctSinceUnlock s' = correctSinceUnlock s + 1 \<and> activeCount s' = activeCount s
               \<and> length (deck s') = length (deck s)))) \<and>
   (run es s = Some s' \<and> right s' = right s + 5 \<and> correctSinceUnlock s = 0
      \<and> activeCount s < length SOUNDS_ORDERED \<longrightarrow>
      activeCount s' = activeCount s + 1 \<and> length (deck s') = length (deck s) + 1
      \<and> correctSinceUnlock s' = 0)"
proof (intro conjI impI)
  assume "current s = Some i \<and> i < length (deck s)"
  then show "\<exists>s'. onAnswerClick (g (deck s ! i)) r s = Some s' \<and>
         (if correctSinceUnlock s + 1 \<ge> 5 \<and> activeCount s < length SOUNDS_ORDERED
          then correctSinceUnlock s' = 0 \<and> activeCount s' = activeCount s + 1
               \<and> length (deck s') = length (deck s) + 1
          else correctSinceUnlock s' = correctSinceUnlock s + 1 \<and> activeCount s' = activeCount s
               \<and> length (deck s') = length (deck s))"
    using onAnswerClick_correct_counter[of s i "g (deck s ! i)" r] by auto
next
  assume a: "run es s = Some s' \<and> right s' = right s + 5 \<and> correctSinceUnlock s = 0
      \<and> activeCount s < length SOUNDS_ORDERED"
  then show "activeCount s' = activeCount s + 1" "length (deck s') = length (deck s) + 1"
      "correctSinceUnlock s' = 0"
    using run_counter[of es s s'] by simp_all
qed



text \<open>
  The theorem in a fresh game: the first correct answer, and the five correct answers
  \<open>ch, ou, on, fr, ch\<close> in a row, after which five cards are active.
\<close>

theorem five_correct_answers_unlock_one_witness:
  "map_option (\<lambda>s. (correctSinceUnlock s, activeCount s, length (deck s)))
      (run [Next, Click ''ch'' 10000 0] (initDeck state0)) = Some (1, 4, 4) \<and>
   map_option (\<lambda>s. (right s, correctSinceUnlock s, activeCount s, length (deck s)))
      (run [Next, Click ''ch'' 10000 0, Next, Click ''ou'' 10000 0, Next, Click ''on'' 10000 0,
            Next, Click ''fr'' 10000 0, Next, Click ''ch'' 10000 0] (initDeck state0))
     = Some (5, 0, 5, 5)"
proof -
  let ?init = "initDeck state0"
  let ?es = "[Next, Click ''ch'' 10000 0, Next, Click ''ou'' 10000 0, Next, Click ''on'' 10000 0,
              Next, Click ''fr'' 10000 0, Next, Click ''ch'' 10000 0]"
  have "map_option (\<lambda>s. (current s, g (deck s ! 0), correctSinceUnlock s, activeCount s, length (deck s)))
          (nextQuestion ?init) = Some (Some 0, ''ch'', 0, 4, 4)"
    by code_simp
  then obtain q where q: "nextQuestion ?init = Some q" "current q = Some 0" "g (deck q ! 0) = ''ch''"
      "correctSinceUnlock q = 0" "activeCount q = 4" "length (deck q) = 4"
    unfolding map_option_eq_Some by blast
  let ?q = "q\<lparr>timerLeft := 10000\<rparr>"
  have pq: "current ?q = Some 0 \<and> 0 < length (deck ?q)" using q by simp
  note A = five_correct_answers_unlock_one [of ?q 0 0, THEN conjunct1, rule_format, OF pq]
  then obtain s1 where s1: "onAnswerClick ''ch'' 0 ?q = Some s1" "correctSinceUnlock s1 = 1"
      "activeCount s1 = 4" "length (deck s1) = 4"
    using q by auto
  have run1: "run [Next, Click ''ch'' 10000 0] ?init = Some s1"
    using q(1) s1(1) by simp
  have one: "map_option (\<lambda>s. (correctSinceUnlock s, activeCount s, length (deck s)))
      (run [Next, Click ''ch'' 10000 0] ?init) = Some (1, 4, 4)"
    unfolding run1 using s1 by simp
  have "map_option right (run ?es ?init) = Some 5" by code_simp
  then obtain s' where r: "run ?es ?init = Some s'" and r5: "right s' = 5"
    unfolding map_option_eq_Some by blast
  have c0: "correctSinceUnlock ?init = 0" "activeCount ?init = 4" "length (deck ?init) = 4"
    "right ?init = 0" by (simp_all add: initDeck_def state0_def length_SOUNDS_ORDERED)
  have p2: "right s' = right ?init + 5" using r5 c0 by simp
  have n: "activeCount ?init < length SOUNDS_ORDERED" by (simp add: c0 length_SOUNDS_ORDERED)
  note B = five_correct_answers_unlock_one [of ?init _ _ ?es s', THEN conjunct2, rule_format,
                OF conjI[OF r conjI[OF p2 conjI[OF c0(1) n]]]]
  have two: "map_option (\<lambda>s. (right s, correctSinceUnlock s, activeCount s, length (deck s)))
      (run ?es ?init) = Some (5, 0, 5, 5)"
    unfolding r using B r5 c0 by simp
  from one two show ?thesis by (rule conjI)
qed

text \<open>
  The reset "regardless of whether the unlock succeeded" fails once all 28 sounds are
  active: five correct answers in a row leave the counter at 5.
\<close>

theorem counter_not_reset_when_catalog_exhausted:
  "map_option right
     (run [Next, Click ''ch'' 10000 0, Next, Click ''ou'' 10000 0, Next, Click ''on'' 10000 0,
           Next, Click ''fr'' 10000 0, Next, Click ''cl'' 10000 0]
        (initDeck (state0\<lparr>activeCount := 28\<rparr>))) = Some 5 \<and>
   map_option correctSinceUnlock
     (run [Next, Click ''ch'' 10000 0, Next, Click ''ou'' 10000 0, Next, Click ''on'' 10000 0,
           Next, Click ''fr'' 10000 0, Next, Click ''cl'' 10000 0]
        (initDeck (state0\<lparr>activeCount := 28\<rparr>))) = Some 5 \<and>
   map_option activeCount
     (run [Next, Click ''ch'' 10000 0, Next, Click ''ou'' 10000 0, Next, Click ''on'' 10000 0,
           Next, Click ''fr'' 10000 0, Next, Click ''cl'' 10000 0]
        (initDeck (state0\<lparr>activeCount := 28\<rparr>))) = Some 28"
  by code_simp

section \<open>Selector: what pickNextCard returns\<close>

lemma set_insort_cmp: "set (insort_cmp cmp x xs) = insert x (set xs)"
  by (induction xs) auto

lemma set_sort_cmp: "set (sort_cmp cmp xs) = set xs"
  by (induction xs) (simp_all add: sort_cmp_def set_insort_cmp)

lemma sorted_insort_cmp:
  assumes tot: "\<And>a b. \<not> cmp a b \<le> 0 \<Longrightarrow> cmp b a \<le> 0"
    and trans: "\<And>a b c. cmp a b \<le> 0 \<Longrightarrow> cmp b c \<le> 0 \<Longrightarrow> cmp a c \<le> 0"
  shows "sorted_wrt (\<lambda>a b. cmp a b \<le> 0) xs \<Longrightarrow> sorted_wrt (\<lambda>a b. cmp a b \<le> 0) (insort_cmp cmp x xs)"
proof (induction xs)
  case Nil
  then show ?case by simp
next
  case (Cons y ys)
  show ?case
  proof (cases "cmp x y \<le> 0")
    case True
    then have "\<forall>z\<in>set ys. cmp x z \<le> 0" using Cons.prems trans by auto
    with True Cons.prems show ?thesis by simp
  next
    case False
    then have "cmp y x \<le> 0" by (rule tot)
    with False Cons show ?thesis by (auto simp: set_insort_cmp)
  qed
qed

lemma sorted_sort_cmp:
  assumes tot: "\<And>a b. \<not> cmp a b \<le> 0 \<Longrightarrow> cmp b a \<le> 0"
    and trans: "\<And>a b c. cmp a b \<le> 0 \<Longrightarrow> cmp b c \<le> 0 \<Longrightarrow> cmp a c \<le> 0"
  shows "sorted_wrt (\<lambda>a b. cmp a b \<le> 0) (sort_cmp cmp xs)"
proof (induction xs)
  case Nil
  then show ?case by (simp add: sort_cmp_def)
next
  case (Cons x xs)
  have "sort_cmp cmp (x # xs) = insort_cmp cmp x (sort_cmp cmp xs)" by (simp add: sort_cmp_def)
  with sorted_insort_cmp[of cmp, OF tot trans Cons] show ?case by simp
qed

text \<open>What \<open>choices[0] || sorted[0]\<close> yields on a sorted, non-empty array.\<close>

lemma first_or_filter_sorted:
  assumes srt: "sorted_wrt le xs" and refl: "\<And>a. le a a" and ne: "xs \<noteq> []"
  shows "\<exists>i. first_or (filter P xs) xs = Some i \<and> i \<in> set xs \<and>
           ((\<exists>j\<in>set xs. P j) \<longrightarrow> P i \<and> (\<forall>j\<in>set xs. P j \<longrightarrow> le i j)) \<and>
           (\<not> (\<exists>j\<in>set xs. P j) \<longrightarrow> (\<forall>j\<in>set xs. le i j))"
proof (cases "filter P xs")
  case Nil
  then have none: "\<not> (\<exists>j\<in>set xs. P j)" by (simp add: filter_empty_conv)
  obtain y ys where xs: "xs = y # ys" using ne by (cases xs) auto
  have "\<forall>j\<in>set xs. le y j" using srt refl xs by auto
  with Nil none xs show ?thesis by (simp add: first_or_def)
next
  case (Cons c cs)
  have "sorted_wrt le (filter P xs)" using srt by (rule sorted_wrt_filter)
  with Cons refl have le: "\<forall>j\<in>set (filter P xs). le c j" by auto
  have "c \<in> set (filter P xs)" using Cons by simp
  then have c: "c \<in> set xs" "P c" by auto
  have all: "\<forall>j\<in>set xs. P j \<longrightarrow> le c j" using le by simp
  have "first_or (filter P xs) xs = Some c" using Cons by (simp add: first_or_def)
  with c all show ?thesis by blast
qed

lemma cmp_due_le: "cmp_due a b \<le> 0 \<longleftrightarrow> box a < box b \<or> (box a = box b \<and> dueAt a \<le> dueAt b)"
  by (auto simp: cmp_due_def)

lemma cmp_soonest_le:
  "cmp_soonest a b \<le> 0 \<longleftrightarrow> dueAt a < dueAt b \<or> (dueAt a = dueAt b \<and> box a \<le> box b)"
  by (auto simp: cmp_soonest_def)

lemma sorted_due:
  "sorted_wrt (\<lambda>a b. cmp_due (f a) (f b) \<le> 0) (sort_cmp (\<lambda>a b. cmp_due (f a) (f b)) xs)"
  by (rule sorted_sort_cmp) (auto simp: cmp_due_le)

lemma sorted_soonest:
  "sorted_wrt (\<lambda>a b. cmp_soonest (f a) (f b) \<le> 0) (sort_cmp (\<lambda>a b. cmp_soonest (f a) (f b)) xs)"
  by (rule sorted_sort_cmp) (auto simp: cmp_soonest_le)

text \<open>The two branches of \<open>pickNextCard\<close>, each as a fact about the position returned.\<close>

lemma pickNextCard_due_branch:
  assumes due: "\<exists>j<length (deck s). dueAt (deck s ! j) \<le> questionIndex s"
  shows "\<exists>i. pickNextCard s = Some i \<and> i < length (deck s) \<and> dueAt (deck s ! i) \<le> questionIndex s \<and>
     ((\<exists>j<length (deck s). dueAt (deck s ! j) \<le> questionIndex s \<and> Some (g (deck s ! j)) \<noteq> lastTargetG s) \<longrightarrow>
        Some (g (deck s ! i)) \<noteq> lastTargetG s \<and>
        (\<forall>j<length (deck s). dueAt (deck s ! j) \<le> questionIndex s \<and> Some (g (deck s ! j)) \<noteq> lastTargetG s \<longrightarrow>
           cmp_due (deck s ! i) (deck s ! j) \<le> 0)) \<and>
     (\<not> (\<exists>j<length (deck s). dueAt (deck s ! j) \<le> questionIndex s \<and> Some (g (deck s ! j)) \<noteq> lastTargetG s) \<longrightarrow>
        (\<forall>j<length (deck s). dueAt (deck s ! j) \<le> questionIndex s \<longrightarrow>
           cmp_due (deck s ! i) (deck s ! j) \<le> 0))"
proof -
  let ?due = "filter (\<lambda>i. dueAt (deck s ! i) \<le> questionIndex s) [0..<length (deck s)]"
  let ?cmp = "\<lambda>a b. cmp_due (deck s ! a) (deck s ! b)"
  let ?le = "\<lambda>a b. ?cmp a b \<le> 0"
  let ?P = "\<lambda>i. Some (g (deck s ! i)) \<noteq> lastTargetG s"
  let ?srt = "sort_cmp ?cmp ?due"
  have ne: "?due \<noteq> []" using due by (auto simp: filter_empty_conv)
  have set: "set ?srt = {i. i < length (deck s) \<and> dueAt (deck s ! i) \<le> questionIndex s}"
    by (auto simp: set_sort_cmp)
  have ne': "?srt \<noteq> []" using ne set_sort_cmp[of ?cmp ?due] by (metis set_empty)
  have pick: "pickNextCard s = first_or (filter ?P ?srt) ?srt"
    using ne by (simp add: pickNextCard_def Let_def)
  have srt: "sorted_wrt ?le ?srt" by (rule sorted_due)
  have refl: "\<And>a. ?le a a" by (simp add: cmp_due_le)
  from first_or_filter_sorted[of ?le ?srt ?P, OF srt refl ne']
  obtain i where i: "first_or (filter ?P ?srt) ?srt = Some i" "i \<in> set ?srt"
     "(\<exists>j\<in>set ?srt. ?P j) \<longrightarrow> ?P i \<and> (\<forall>j\<in>set ?srt. ?P j \<longrightarrow> ?le i j)"
     "\<not> (\<exists>j\<in>set ?srt. ?P j) \<longrightarrow> (\<forall>j\<in>set ?srt. ?le i j)"
    by blast
  have a: "i < length (deck s) \<and> dueAt (deck s ! i) \<le> questionIndex s"
    using i(2) unfolding set by simp
  have b: "(\<exists>j<length (deck s). dueAt (deck s ! j) \<le> questionIndex s \<and> ?P j) \<longrightarrow>
        ?P i \<and> (\<forall>j<length (deck s). dueAt (deck s ! j) \<le> questionIndex s \<and> ?P j \<longrightarrow> ?le i j)"
    using i(3) unfolding set by blast
  have c: "\<not> (\<exists>j<length (deck s). dueAt (deck s ! j) \<le> questionIndex s \<and> ?P j) \<longrightarrow>
        (\<forall>j<length (deck s). dueAt (deck s ! j) \<le> questionIndex s \<longrightarrow> ?le i j)"
    using i(4) unfolding set by blast
  from pick i(1) have d: "pickNextCard s = Some i" by simp
  show ?thesis
    apply (rule exI[of _ i])
    using a b c d apply simp
    done
qed

lemma pickNextCard_soonest_branch:
  assumes nodue: "\<not> (\<exists>j<length (deck s). dueAt (deck s ! j) \<le> questionIndex s)"
    and ne: "deck s \<noteq> []"
  shows "\<exists>i. pickNextCard s = Some i \<and> i < length (deck s) \<and>
     ((\<exists>j<length (deck s). Some (g (deck s ! j)) \<noteq> lastTargetG s) \<longrightarrow>
        Some (g (deck s ! i)) \<noteq> lastTargetG s \<and>
        (\<forall>j<length (deck s). Some (g (deck s ! j)) \<noteq> lastTargetG s \<longrightarrow>
           cmp_soonest (deck s ! i) (deck s ! j) \<le> 0)) \<and>
     (\<not> (\<exists>j<length (deck s). Some (g (deck s ! j)) \<noteq> lastTargetG s) \<longrightarrow>
        (\<forall>j<length (deck s). cmp_soonest (deck s ! i) (deck s ! j) \<le> 0))"
proof -
  let ?due = "filter (\<lambda>i. dueAt (deck s ! i) \<le> questionIndex s) [0..<length (deck s)]"
  let ?cmp = "\<lambda>a b. cmp_soonest (deck s ! a) (deck s ! b)"
  let ?le = "\<lambda>a b. ?cmp a b \<le> 0"
  let ?P = "\<lambda>i. Some (g (deck s ! i)) \<noteq> lastTargetG s"
  let ?srt = "sort_cmp ?cmp [0..<length (deck s)]"
  have e: "?due = []" using nodue by (auto simp: filter_empty_conv)
  have set: "set ?srt = {i. i < length (deck s)}"
    by (auto simp: set_sort_cmp)
  have ne': "?srt \<noteq> []" using ne set by (metis (mono_tags, lifting) empty_Collect_eq length_greater_0_conv set_empty)
  have pick: "pickNextCard s = first_or (filter ?P ?srt) ?srt"
    using e by (simp add: pickNextCard_def Let_def)
  have srt: "sorted_wrt ?le ?srt" by (rule sorted_soonest)
  have refl: "\<And>a. ?le a a" by (simp add: cmp_soonest_le)
  from first_or_filter_sorted[of ?le ?srt ?P, OF srt refl ne']
  obtain i where i: "first_or (filter ?P ?srt) ?srt = Some i" "i \<in> set ?srt"
     "(\<exists>j\<in>set ?srt. ?P j) \<longrightarrow> ?P i \<and> (\<forall>j\<in>set ?srt. ?P j \<longrightarrow> ?le i j)"
     "\<not> (\<exists>j\<in>set ?srt. ?P j) \<longrightarrow> (\<forall>j\<in>set ?srt. ?le i j)"
    by blast
  have a: "i < length (deck s)" using i(2) unfolding set by simp
  have b: "(\<exists>j<length (deck s). ?P j) \<longrightarrow>
        ?P i \<and> (\<forall>j<length (deck s). ?P j \<longrightarrow> ?le i j)"
    using i(3) unfolding set by blast
  have c: "\<not> (\<exists>j<length (deck s). ?P j) \<longrightarrow> (\<forall>j<length (deck s). ?le i j)"
    using i(4) unfolding set by blast
  from pick i(1) have d: "pickNextCard s = Some i" by simp
  show ?thesis
    apply (rule exI[of _ i])
    using a b c d apply simp
    done
qed

lemma pickNextCard_empty: "deck s = [] \<Longrightarrow> pickNextCard s = None"
  by (simp add: pickNextCard_def sort_cmp_def first_or_def)


text \<open>
  Claim C10. On a non-empty deck \<open>pickNextCard\<close> returns a card of the deck (never
  \<open>undefined\<close>), whether some card is due or none is.
\<close>

theorem pickNextCard_in_deck:
  "deck s \<noteq> [] \<Longrightarrow> \<exists>i. pickNextCard s = Some i \<and> i < length (deck s)"
proof (cases "\<exists>j<length (deck s). dueAt (deck s ! j) \<le> questionIndex s")
  case True
  from pickNextCard_due_branch[OF True] show ?thesis by blast
next
  case False
  assume "deck s \<noteq> []"
  from pickNextCard_soonest_branch[OF False this] show ?thesis by blast
qed

text \<open>The theorem at two decks of the repository's tests: one with due cards, one without.\<close>

theorem pickNextCard_in_deck_witness:
  "deck (state0\<lparr>deck := [mk ''a'' 3 15, mk ''b'' 1 9, mk ''c'' 2 9], questionIndex := 10\<rparr>) \<noteq> [] \<and>
   pickNextCard (state0\<lparr>deck := [mk ''a'' 3 15, mk ''b'' 1 9, mk ''c'' 2 9], questionIndex := 10\<rparr>) = Some 1 \<and>
   deck (state0\<lparr>deck := [mk ''b'' 1 12, mk ''c'' 2 14], questionIndex := 10\<rparr>) \<noteq> [] \<and>
   pickNextCard (state0\<lparr>deck := [mk ''b'' 1 12, mk ''c'' 2 14], questionIndex := 10\<rparr>) = Some 0"
proof -
  let ?s = "state0\<lparr>deck := [mk ''a'' 3 15, mk ''b'' 1 9, mk ''c'' 2 9], questionIndex := 10\<rparr>"
  let ?t = "state0\<lparr>deck := [mk ''b'' 1 12, mk ''c'' 2 14], questionIndex := 10\<rparr>"
  have ne: "deck ?s \<noteq> []" "deck ?t \<noteq> []" by simp_all
  have v: "pickNextCard ?s = Some 1" "pickNextCard ?t = Some 0" by code_simp+
  from pickNextCard_in_deck[OF ne(1)] pickNextCard_in_deck[OF ne(2)] ne v show ?thesis by simp
qed

text \<open>
  Claim C4, as the code has it. When at least one card is due, \<open>pickNextCard\<close> returns
  a due card. If some due card has a grapheme other than \<open>lastTargetG\<close>, the card
  returned is one of those and has the least box among them, and among those of that box
  the earliest \<open>dueAt\<close>; only if every due card carries \<open>lastTargetG\<close> is it the least
  among all due cards.
\<close>

theorem pickNextCard_due_minimum:
  assumes "\<exists>j<length (deck s). dueAt (deck s ! j) \<le> questionIndex s"
  shows "\<exists>i. pickNextCard s = Some i \<and> i < length (deck s) \<and> dueAt (deck s ! i) \<le> questionIndex s \<and>
     ((\<exists>j<length (deck s). dueAt (deck s ! j) \<le> questionIndex s \<and> Some (g (deck s ! j)) \<noteq> lastTargetG s) \<longrightarrow>
        Some (g (deck s ! i)) \<noteq> lastTargetG s \<and>
        (\<forall>j<length (deck s). dueAt (deck s ! j) \<le> questionIndex s \<and> Some (g (deck s ! j)) \<noteq> lastTargetG s \<longrightarrow>
           box (deck s ! i) < box (deck s ! j) \<or>
           (box (deck s ! i) = box (deck s ! j) \<and> dueAt (deck s ! i) \<le> dueAt (deck s ! j)))) \<and>
     (\<not> (\<exists>j<length (deck s). dueAt (deck s ! j) \<le> questionIndex s \<and> Some (g (deck s ! j)) \<noteq> lastTargetG s) \<longrightarrow>
        (\<forall>j<length (deck s). dueAt (deck s ! j) \<le> questionIndex s \<longrightarrow>
           box (deck s ! i) < box (deck s ! j) \<or>
           (box (deck s ! i) = box (deck s ! j) \<and> dueAt (deck s ! i) \<le> dueAt (deck s ! j))))"
  using pickNextCard_due_branch[OF assms] unfolding cmp_due_le .

text \<open>The theorem at a deck of the tests, and at the deck of the counterexample below.\<close>

theorem pickNextCard_due_minimum_witness:
  "pickNextCard (state0\<lparr>deck := [mk ''a'' 3 15, mk ''b'' 1 9, mk ''c'' 2 9], questionIndex := 10\<rparr>) = Some 1 \<and>
   pickNextCard (state0\<lparr>deck := [mk ''b'' 1 9, mk ''c'' 2 9], questionIndex := 10,
                          lastTargetG := Some ''b''\<rparr>) = Some 1"
proof -
  let ?s = "state0\<lparr>deck := [mk ''a'' 3 15, mk ''b'' 1 9, mk ''c'' 2 9], questionIndex := 10\<rparr>"
  let ?t = "state0\<lparr>deck := [mk ''b'' 1 9, mk ''c'' 2 9], questionIndex := 10, lastTargetG := Some ''b''\<rparr>"
  have d: "\<exists>j<length (deck ?s). dueAt (deck ?s ! j) \<le> questionIndex ?s"
    by (rule exI[of _ 1]) (simp add: mk_def)
  have e: "\<exists>j<length (deck ?t). dueAt (deck ?t ! j) \<le> questionIndex ?t"
    by (rule exI[of _ 1]) (simp add: mk_def)
  have v: "pickNextCard ?s = Some 1" "pickNextCard ?t = Some 1" by code_simp+
  from pickNextCard_due_minimum[OF d] pickNextCard_due_minimum[OF e] v show ?thesis by simp
qed

text \<open>
  The claim as stated fails when the due card of the lowest box is the one asked last:
  with \<open>b\<close> (box 1) and \<open>c\<close> (box 2) both due and \<open>b\<close> asked last, \<open>c\<close> is returned.
\<close>

theorem pickNextCard_skips_lowest_box:
  "pickNextCard (state0\<lparr>deck := [mk ''b'' 1 9, mk ''c'' 2 9], questionIndex := 10,
                          lastTargetG := Some ''b''\<rparr>) = Some 1 \<and>
   dueAt (mk ''b'' 1 9) \<le> 10 \<and> dueAt (mk ''c'' 2 9) \<le> 10 \<and> box (mk ''b'' 1 9) < box (mk ''c'' 2 9)"
  by code_simp

text \<open>
  Claim C5, as the code has it. The card returned does not carry \<open>lastTargetG\<close>
  whenever the array it is chosen from holds a card with another grapheme: the due
  cards when some card is due, the whole deck when none is.
\<close>

theorem pickNextCard_avoids_last_target:
  assumes "pickNextCard s = Some i"
  shows "((\<exists>j<length (deck s). dueAt (deck s ! j) \<le> questionIndex s \<and> Some (g (deck s ! j)) \<noteq> lastTargetG s)
            \<longrightarrow> Some (g (deck s ! i)) \<noteq> lastTargetG s) \<and>
         (\<not> (\<exists>j<length (deck s). dueAt (deck s ! j) \<le> questionIndex s) \<and>
            (\<exists>j<length (deck s). Some (g (deck s ! j)) \<noteq> lastTargetG s)
            \<longrightarrow> Some (g (deck s ! i)) \<noteq> lastTargetG s)"
proof (intro conjI impI)
  assume a: "\<exists>j<length (deck s). dueAt (deck s ! j) \<le> questionIndex s \<and> Some (g (deck s ! j)) \<noteq> lastTargetG s"
  then have "\<exists>j<length (deck s). dueAt (deck s ! j) \<le> questionIndex s" by blast
  from pickNextCard_due_branch[OF this] a assms show "Some (g (deck s ! i)) \<noteq> lastTargetG s"
    by auto
next
  assume a: "\<not> (\<exists>j<length (deck s). dueAt (deck s ! j) \<le> questionIndex s) \<and>
            (\<exists>j<length (deck s). Some (g (deck s ! j)) \<noteq> lastTargetG s)"
  then have ne: "deck s \<noteq> []" by auto
  from a have nd: "\<not> (\<exists>j<length (deck s). dueAt (deck s ! j) \<le> questionIndex s)" by simp
  from pickNextCard_soonest_branch[OF nd ne] a assms show "Some (g (deck s ! i)) \<noteq> lastTargetG s"
    by auto
qed

text \<open>The theorem at the deck of the repository's test of the repeat avoidance.\<close>

theorem pickNextCard_avoids_last_target_witness:
  "pickNextCard (state0\<lparr>deck := [mk ''b'' 1 9, mk ''c'' 1 9], questionIndex := 10,
                          lastTargetG := Some ''b''\<rparr>) = Some 1 \<and>
   Some (g (mk ''c'' 1 9)) \<noteq> Some ''b''"
proof -
  let ?t = "state0\<lparr>deck := [mk ''b'' 1 9, mk ''c'' 1 9], questionIndex := 10, lastTargetG := Some ''b''\<rparr>"
  have v: "pickNextCard ?t = Some 1" by code_simp
  have e: "\<exists>j<length (deck ?t). dueAt (deck ?t ! j) \<le> questionIndex ?t \<and> Some (g (deck ?t ! j)) \<noteq> lastTargetG ?t"
    by (rule exI[of _ 1]) (simp add: mk_def)
  from pickNextCard_avoids_last_target[OF v] e show ?thesis using v by (simp add: mk_def)
qed

text \<open>
  With the whole deck as the candidate set the claim fails: when the card asked last is
  the only due one, it is asked again although the deck holds other graphemes. This
  happens in a game: three right answers with late reschedules, then a wrong answer on
  \<open>fr\<close> rescheduled one question ahead, and \<open>fr\<close> is asked twice in a row.
\<close>

theorem pickNextCard_repeats_last_target:
  "pickNextCard (state0\<lparr>deck := [mk ''b'' 1 9, mk ''c'' 1 12], questionIndex := 10,
                          lastTargetG := Some ''b''\<rparr>) = Some 0 \<and>
   g (mk ''b'' 1 9) = ''b'' \<and> g (mk ''c'' 1 12) \<noteq> ''b'' \<and>
   map_option lastTargetG
     (run [Next, Click ''ch'' 10000 2, Next, Click ''ou'' 10000 2, Next, Click ''on'' 10000 2,
           Next, Click ''zz'' 10000 0] (initDeck state0)) = Some (Some ''fr'') \<and>
   map_option (map g \<circ> deck)
     (run [Next, Click ''ch'' 10000 2, Next, Click ''ou'' 10000 2, Next, Click ''on'' 10000 2,
           Next, Click ''zz'' 10000 0] (initDeck state0)) = Some [''ch'', ''ou'', ''on'', ''fr''] \<and>
   map_option current
     (run [Next, Click ''ch'' 10000 2, Next, Click ''ou'' 10000 2, Next, Click ''on'' 10000 2,
           Next, Click ''zz'' 10000 0, Next] (initDeck state0)) = Some (Some 3) \<and>
   map_option lastTargetG
     (run [Next, Click ''ch'' 10000 2, Next, Click ''ou'' 10000 2, Next, Click ''on'' 10000 2,
           Next, Click ''zz'' 10000 0, Next] (initDeck state0)) = Some (Some ''fr'')"
  by code_simp

section \<open>Distractor builder: four distinct options\<close>










































end
